theory Spec2Isabelle
  imports Main "HOL-Library.AList" "HOL-Library.Char_ord" "HOL-Library.List_Lexorder"
begin

section \<open>Text primitives used by generate\_chart.py\<close>

text \<open>
  The script works on Python \<open>str\<close> values. A string is modelled as a list of code
  points, and a \<^typ>\<open>char\<close> stands for the code point of the same number, so the
  model covers text whose code points are below 256 (ASCII and Latin-1). The
  character classes below are those of the interpreter on that range.
\<close>

definition TAB :: char where
  "TAB = CHR 0x09"

definition NL :: char where
  "NL = CHR 0x0A"

text \<open>The characters removed by \<open>str.strip()\<close> without argument.\<close>

definition py_isspace :: "char \<Rightarrow> bool" where
  "py_isspace c =
     (let n = (of_char c :: nat)
      in (9 \<le> n \<and> n \<le> 13) \<or> (28 \<le> n \<and> n \<le> 32) \<or> n = 133 \<or> n = 160)"

text \<open>The characters matched by \<open>\d\<close> in a \<open>str\<close> pattern, and the decimal digits of \<open>int()\<close>.\<close>

definition is_digit :: "char \<Rightarrow> bool" where
  "is_digit c = (48 \<le> (of_char c :: nat) \<and> (of_char c :: nat) \<le> 57)"

definition digit_val :: "char \<Rightarrow> nat" where
  "digit_val c = of_char c - 48"

text \<open>\<open>s.strip()\<close>\<close>

definition strip :: "string \<Rightarrow> string" where
  "strip s = rev (dropWhile py_isspace (rev (dropWhile py_isspace s)))"

text \<open>
  \<open>s.split(sep)\<close> for a separator of one character: the result is never empty and
  keeps empty fields. A character other than the separator joins the first field of
  the rest (the branch for an empty rest is never taken).
\<close>

fun split_on :: "char \<Rightarrow> string \<Rightarrow> string list" where
  "split_on sep [] = [[]]"
| "split_on sep (c # cs) =
     (if c = sep then [] # split_on sep cs
      else (case split_on sep cs of
              [] \<Rightarrow> [[c]]
            | p # ps \<Rightarrow> (c # p) # ps))"

text \<open>\<open>s.lower()\<close>, character by character.\<close>

definition lower_char :: "char \<Rightarrow> char" where
  "lower_char c =
     (let n = (of_char c :: nat)
      in if (65 \<le> n \<and> n \<le> 90) \<or> (192 \<le> n \<and> n \<le> 222 \<and> n \<noteq> 215)
         then char_of (n + 32) else c)"

definition lower :: "string \<Rightarrow> string" where
  "lower s = map lower_char s"

text \<open>\<open>s.startswith(p)\<close>, \<open>sub in s\<close> and \<open>s.endswith(suf)\<close>.\<close>

fun startswith :: "string \<Rightarrow> string \<Rightarrow> bool" where
  "startswith s [] = True"
| "startswith [] (p # ps) = False"
| "startswith (c # cs) (p # ps) = (c = p \<and> startswith cs ps)"

fun contains :: "string \<Rightarrow> string \<Rightarrow> bool" where
  "contains [] sub = (sub = [])"
| "contains (c # cs) sub = (startswith (c # cs) sub \<or> contains cs sub)"

definition endswith :: "string \<Rightarrow> string \<Rightarrow> bool" where
  "endswith s suf = startswith (rev s) (rev suf)"

text \<open>\<open>re.match(r'^\d{4}$', line)\<close> on a line that holds no newline.\<close>

definition is_year :: "string \<Rightarrow> bool" where
  "is_year line = (length line = 4 \<and> list_all is_digit line)"

subsection \<open>\<open>int(s)\<close> on a string\<close>

text \<open>
  \<open>int\<close> skips blanks at both ends (a smaller class than that of \<open>strip\<close>), reads
  an optional sign, then decimal digits in which single underscores may separate
  digits. Anything else raises \<open>ValueError\<close>, which is the result \<open>None\<close> here.
  The interpreter's optional limit on the number of digits is taken as switched off.
\<close>

definition int_space :: "char \<Rightarrow> bool" where
  "int_space c =
     (let n = (of_char c :: nat)
      in (9 \<le> n \<and> n \<le> 13) \<or> n = 32 \<or> n = 133 \<or> n = 160)"

definition int_strip :: "string \<Rightarrow> string" where
  "int_strip s = rev (dropWhile int_space (rev (dropWhile int_space s)))"

text \<open>The digits after a digit has been read; \<open>n\<close> is the value so far.\<close>

fun digits_acc :: "nat \<Rightarrow> string \<Rightarrow> nat option" where
  "digits_acc n [] = Some n"
| "digits_acc n (c # cs) =
     (if is_digit c then digits_acc (10 * n + digit_val c) cs
      else if c = CHR ''_'' then
        (case cs of
           [] \<Rightarrow> None
         | d # ds \<Rightarrow> if is_digit d then digits_acc (10 * n + digit_val d) ds else None)
      else None)"

definition magnitude :: "string \<Rightarrow> nat option" where
  "magnitude s =
     (case s of
        [] \<Rightarrow> None
      | c # cs \<Rightarrow> if is_digit c then digits_acc (digit_val c) cs else None)"

definition py_int :: "string \<Rightarrow> int option" where
  "py_int s =
     (case int_strip s of
        [] \<Rightarrow> None
      | c # cs \<Rightarrow>
          if c = CHR ''-'' then map_option (\<lambda>n. - int n) (magnitude cs)
          else if c = CHR ''+'' then map_option int (magnitude cs)
          else map_option int (magnitude (c # cs)))"

subsection \<open>\<open>str(n)\<close> on an integer\<close>

fun digits :: "nat \<Rightarrow> string" where
  "digits n = (if n < 10 then [char_of (48 + n)] else digits (n div 10) @ [char_of (48 + n mod 10)])"

declare digits.simps [simp del]

definition py_str :: "int \<Rightarrow> string" where
  "py_str i = (if i < 0 then CHR ''-'' # digits (nat (- i)) else digits (nat i))"

section \<open>Log extractor: \<open>get_git_stats\<close>\<close>

text \<open>
  \<open>stats\<close> is a \<open>defaultdict\<close> from year to a dict with the two keys
  \<open>"additions"\<close> and \<open>"deletions"\<close>. It is an association list in insertion
  order with distinct keys; \<^const>\<open>map_of\<close> reads it and \<^const>\<open>AList.update\<close>
  writes it (a new key goes to the end, an old key keeps its place).
\<close>

record totals =
  additions :: int
  deletions :: int

type_synonym stats_dict = "(string \<times> totals) list"

text \<open>
  \<open>stats[y]["additions"] += a; stats[y]["deletions"] += d\<close>: the first access
  creates the entry with both totals 0 when the key is missing. \<open>year_totals\<close>
  is the value that \<open>stats[y]\<close> reads.
\<close>

definition year_totals :: "stats_dict \<Rightarrow> string \<Rightarrow> totals" where
  "year_totals st y =
     (case map_of st y of
        None \<Rightarrow> \<lparr>additions = 0, deletions = 0\<rparr>
      | Some t \<Rightarrow> t)"

definition add_changes :: "string \<Rightarrow> int \<Rightarrow> int \<Rightarrow> stats_dict \<Rightarrow> stats_dict" where
  "add_changes y a d st =
     (let t = year_totals st y
      in AList.update y \<lparr>additions = additions t + a, deletions = deletions t + d\<rparr> st)"

text \<open>\<open>int(f) if f != '-' else 0\<close>; \<open>None\<close> is the \<open>ValueError\<close> of \<open>int\<close>.\<close>

definition numfield :: "string \<Rightarrow> int option" where
  "numfield f = (if f \<noteq> ''-'' then py_int f else Some 0)"

text \<open>\<open>'sports_act' in p.lower() or p.endswith('.md')\<close>\<close>

definition file_filter :: "string \<Rightarrow> bool" where
  "file_filter p = (contains (lower p) ''sports_act'' \<or> endswith p ''.md'')"

record extractor =
  stats :: stats_dict
  current_year :: "string option"

definition init :: extractor where
  "init = \<lparr>stats = [], current_year = None\<rparr>"

text \<open>
  The body of the loop over the lines. The test \<open>current_year and ...\<close> is false
  for \<open>None\<close> and for an empty string. A \<open>ValueError\<close> of either \<open>int\<close> leaves
  the try block before anything is added.
\<close>

definition process_line :: "string \<Rightarrow> extractor \<Rightarrow> extractor" where
  "process_line raw e =
     (let line = strip raw in
      if line = [] then e
      else if is_year line then e\<lparr>current_year := Some line\<rparr>
      else
        (case current_year e of
           None \<Rightarrow> e
         | Some y \<Rightarrow>
             if y \<noteq> [] \<and> TAB \<in> set line then
               (let parts = split_on TAB line in
                if 2 \<le> length parts then
                  (case numfield (parts ! 0) of
                     None \<Rightarrow> e
                   | Some a \<Rightarrow>
                       (case numfield (parts ! 1) of
                          None \<Rightarrow> e
                        | Some d \<Rightarrow>
                            if file_filter (last parts)
                            then e\<lparr>stats := add_changes y a d (stats e)\<rparr>
                            else e))
                else e)
             else e))"

text \<open>The loop: the lines in order, from the state \<open>e\<close>.\<close>

definition run_lines :: "string list \<Rightarrow> extractor \<Rightarrow> extractor" where
  "run_lines ls e = foldl (\<lambda>e l. process_line l e) e ls"

text \<open>
  \<open>subprocess.run(cmd, capture_output=True, text=True)\<close> returns a
  \<open>CompletedProcess\<close>; the command itself is outside the model, its result is
  the input. \<open>get_git_stats\<close> reads \<open>result.stdout\<close> only.
\<close>

record completed_process =
  returncode :: int
  stdout :: string
  stderr :: string

definition parse_log :: "string \<Rightarrow> stats_dict" where
  "parse_log out = stats (run_lines (split_on NL out) init)"

definition get_git_stats :: "completed_process \<Rightarrow> stats_dict" where
  "get_git_stats result = parse_log (stdout result)"

subsection \<open>Properties of input lines\<close>

text \<open>
  A numstat line whose path passes the file filter: the stripped line holds a tab and
  its last field passes \<^const>\<open>file_filter\<close>.
\<close>

definition passes_filter :: "string \<Rightarrow> bool" where
  "passes_filter raw =
     (TAB \<in> set (strip raw) \<and> file_filter (last (split_on TAB (strip raw))))"

text \<open>
  The lines that \<open>git log --format=%ad --date=format:%Y --numstat\<close> prints: a line
  without a tab (the year of a commit, an empty line), or a numstat line, whose first
  two fields are counts and which has a third field, the path. A count is the marker
  \<open>-\<close> or an unsigned decimal numeral.
\<close>

definition numstat_count :: "string \<Rightarrow> bool" where
  "numstat_count f = (f = ''-'' \<or> (f \<noteq> [] \<and> list_all is_digit f))"

definition git_line :: "string \<Rightarrow> bool" where
  "git_line l =
     (let parts = split_on TAB l
      in length parts = 1 \<or>
         (3 \<le> length parts \<and> numstat_count (parts ! 0) \<and> numstat_count (parts ! 1)))"

text \<open>No record of the mapping holds a negative total.\<close>

definition all_nonneg :: "stats_dict \<Rightarrow> bool" where
  "all_nonneg st = (\<forall>(y, t) \<in> set st. 0 \<le> additions t \<and> 0 \<le> deletions t)"

section \<open>Chart renderer: \<open>create_chart\<close>\<close>

text \<open>
  The renderer is modelled by the calls it makes on the axes, in order: \<open>ax.bar(i, h,
  color=c)\<close>, \<open>ax.text(i, y, s)\<close> and, after the loop, \<open>ax.set_xticklabels(years)\<close>.
  The styling arguments that are constants of the script (width, fonts, grid) are left
  out; the fill colour is kept, it tells an addition bar from a deletion bar.
\<close>

datatype ax_call =
  Bar nat int string
| Text nat int string
| XTickLabels "string list"

text \<open>The body of the loop over \<open>enumerate(zip(years, additions, deletions))\<close>.\<close>

definition draw_year :: "nat \<times> string \<times> int \<times> int \<Rightarrow> ax_call list" where
  "draw_year p =
     (case p of (i, year, add, dele) \<Rightarrow>
        (if add > 0 then [Bar i add ''#90EE90'', Text i (add + 5) (py_str add)] else []) @
        (if dele < 0 then [Bar i dele ''#FF7F7F'', Text i (dele - 5) (py_str (abs dele))] else []))"

text \<open>
  \<open>stats[y]\<close> is read for the keys of \<open>stats\<close> itself, so the lookup never
  raises \<open>KeyError\<close>.
\<close>

definition create_chart :: "stats_dict \<Rightarrow> ax_call list" where
  "create_chart st =
     (let years = sort (map fst st);
          adds = map (\<lambda>y. additions (the (map_of st y))) years;
          dels = map (\<lambda>y. - deletions (the (map_of st y))) years
      in concat (map draw_year (enumerate 0 (zip years (zip adds dels))))
         @ [XTickLabels years])"

section \<open>Facts about the text primitives\<close>

lemma split_on_not_Nil: "split_on c s \<noteq> []"
  by (induction s) (auto split: list.splits)

lemma split_on_no_sep: "c \<notin> set s \<Longrightarrow> split_on c s = [s]"
  by (induction s) auto

lemma split_on_append: "split_on c (xs @ c # ys) = split_on c xs @ split_on c ys"
  by (induction xs) (auto split: list.splits simp: split_on_not_Nil)

lemma split_on_sep_free: "c \<notin> set xs \<Longrightarrow> split_on c (xs @ c # ys) = xs # split_on c ys"
  by (simp add: split_on_append split_on_no_sep)

lemma dropWhile_id: "s \<noteq> [] \<Longrightarrow> \<not> P (hd s) \<Longrightarrow> dropWhile P s = s"
  by (cases s) auto

lemma strip_id: "s \<noteq> [] \<Longrightarrow> \<not> py_isspace (hd s) \<Longrightarrow> \<not> py_isspace (last s) \<Longrightarrow> strip s = s"
  by (simp add: strip_def dropWhile_id hd_rev)

lemma int_strip_id: "s \<noteq> [] \<Longrightarrow> \<not> int_space (hd s) \<Longrightarrow> \<not> int_space (last s) \<Longrightarrow> int_strip s = s"
  by (simp add: int_strip_def dropWhile_id hd_rev)

lemma is_digit_char_of: "(k::nat) < 10 \<Longrightarrow> is_digit (char_of (48 + k))"
  by (simp add: is_digit_def)

lemma digit_val_char_of: "(k::nat) < 10 \<Longrightarrow> digit_val (char_of (48 + k)) = k"
  by (simp add: digit_val_def)

lemma digits_not_Nil: "digits n \<noteq> []"
  by (subst digits.simps) simp

lemma digits_all_digit: "list_all is_digit (digits n)"
  by (induction n rule: digits.induct) (subst digits.simps, simp add: is_digit_char_of)

lemma digits_acc_append:
  "list_all is_digit ds \<Longrightarrow> digits_acc n (ds @ es) = digits_acc (foldl (\<lambda>v c. 10 * v + digit_val c) n ds) es"
  by (induction ds arbitrary: n) auto

lemma digits_acc_all_digit:
  "list_all is_digit ds \<Longrightarrow> digits_acc n ds = Some (foldl (\<lambda>v c. 10 * v + digit_val c) n ds)"
  using digits_acc_append [of ds n "[]"] by simp

lemma foldl_digits: "foldl (\<lambda>v c. 10 * v + digit_val c) 0 (digits n) = n"
  by (induction n rule: digits.induct) (subst digits.simps, simp add: digit_val_char_of)

lemma magnitude_digits: "magnitude (digits n) = Some n"
proof -
  obtain c cs where cs: "digits n = c # cs"
    using digits_not_Nil by (cases "digits n") auto
  have all: "list_all is_digit (c # cs)"
    using digits_all_digit [of n] cs by simp
  have "foldl (\<lambda>v c. 10 * v + digit_val c) 0 (c # cs) = n"
    using foldl_digits [of n] cs by simp
  then show ?thesis
    using all cs by (simp add: magnitude_def digits_acc_all_digit)
qed

lemma is_digit_not_space: "is_digit c \<Longrightarrow> \<not> py_isspace c \<and> \<not> int_space c \<and> c \<noteq> TAB \<and> c \<noteq> CHR ''-'' \<and> c \<noteq> CHR ''+''"
  by (auto simp: is_digit_def py_isspace_def int_space_def TAB_def)

lemma hd_digits: "is_digit (hd (digits n))"
  using digits_all_digit [of n] digits_not_Nil [of n] by (cases "digits n") auto

lemma last_digits: "is_digit (last (digits n))"
  using digits_all_digit [of n] digits_not_Nil [of n] by (simp add: list_all_iff)

lemma py_int_digits: "py_int (digits n) = Some (int n)"
proof -
  have strip: "int_strip (digits n) = digits n"
    using hd_digits [of n] last_digits [of n] is_digit_not_space
    by (intro int_strip_id digits_not_Nil) blast+
  obtain c cs where cs: "digits n = c # cs"
    using digits_not_Nil by (cases "digits n") auto
  have "is_digit c" using hd_digits [of n] cs by simp
  then have "c \<noteq> CHR ''-''" "c \<noteq> CHR ''+''"
    using is_digit_not_space by blast+
  moreover have "py_int (digits n) = (case digits n of [] \<Rightarrow> None | c # cs \<Rightarrow>
          if c = CHR ''-'' then map_option (\<lambda>n. - int n) (magnitude cs)
          else if c = CHR ''+'' then map_option int (magnitude cs)
          else map_option int (magnitude (c # cs)))"
    by (simp add: py_int_def strip)
  ultimately show ?thesis
    using magnitude_digits [of n] by (simp add: cs)
qed

lemma py_str_nat: "py_str (int n) = digits n"
  by (simp add: py_str_def)

lemma numfield_digits: "numfield (digits n) = Some (int n)"
proof -
  have "digits n \<noteq> ''-''"
    using hd_digits [of n] is_digit_not_space by (cases "digits n") auto
  then show ?thesis by (simp add: numfield_def py_int_digits)
qed

section \<open>Facts about the extractor\<close>

lemma run_lines_Nil: "run_lines [] e = e"
  by (simp add: run_lines_def)

lemma run_lines_Cons: "run_lines (l # ls) e = run_lines ls (process_line l e)"
  by (simp add: run_lines_def)

lemma run_lines_append: "run_lines (xs @ ys) e = run_lines ys (run_lines xs e)"
  by (simp add: run_lines_def)

lemma TAB_not_digit: "\<not> is_digit TAB"
  by (simp add: is_digit_def TAB_def)

lemma is_year_no_TAB: "is_year s \<Longrightarrow> TAB \<notin> set s"
  using TAB_not_digit by (auto simp: is_year_def list_all_iff)

lemma numstat_line_shape:
  assumes "fa \<noteq> []" and "\<not> py_isspace (hd fa)"
    and "TAB \<notin> set fa" and "TAB \<notin> set fd" and "TAB \<notin> set path"
    and "path \<noteq> []" and "\<not> py_isspace (last path)"
  shows "strip (fa @ TAB # fd @ TAB # path) = fa @ TAB # fd @ TAB # path"
    and "split_on TAB (fa @ TAB # fd @ TAB # path) = [fa, fd, path]"
proof -
  show "strip (fa @ TAB # fd @ TAB # path) = fa @ TAB # fd @ TAB # path"
    using assms by (intro strip_id) auto
  show "split_on TAB (fa @ TAB # fd @ TAB # path) = [fa, fd, path]"
    using assms by (simp add: split_on_sep_free split_on_no_sep)
qed

lemma process_numstat_line:
  assumes "current_year e = Some y" and "y \<noteq> []"
    and "fa \<noteq> []" and "\<not> py_isspace (hd fa)"
    and "TAB \<notin> set fa" and "TAB \<notin> set fd" and "TAB \<notin> set path"
    and "path \<noteq> []" and "\<not> py_isspace (last path)"
  shows "process_line (fa @ TAB # fd @ TAB # path) e =
     (case numfield fa of
        None \<Rightarrow> e
      | Some a \<Rightarrow>
          (case numfield fd of
             None \<Rightarrow> e
           | Some d \<Rightarrow>
               if file_filter path then e\<lparr>stats := add_changes y a d (stats e)\<rparr> else e))"
proof -
  let ?line = "fa @ TAB # fd @ TAB # path"
  have s: "strip ?line = ?line" and p: "split_on TAB ?line = [fa, fd, path]"
    using assms numstat_line_shape by blast+
  have ny: "\<not> is_year ?line"
    using is_year_no_TAB [of ?line] by auto
  show ?thesis
    by (simp add: process_line_def Let_def s p ny assms(1,2) split: option.split)
qed

lemma year_totals_add_changes:
  "year_totals (add_changes y a d st) y =
     \<lparr>additions = additions (year_totals st y) + a, deletions = deletions (year_totals st y) + d\<rparr>"
  by (simp add: add_changes_def Let_def year_totals_def update_conv')

lemma map_of_add_changes_other:
  "y' \<noteq> y \<Longrightarrow> map_of (add_changes y a d st) y' = map_of st y'"
  by (simp add: add_changes_def Let_def update_conv')

lemma map_of_add_changes_same:
  "map_of (add_changes y a d st) y =
     Some \<lparr>additions = additions (year_totals st y) + a, deletions = deletions (year_totals st y) + d\<rparr>"
  by (simp add: add_changes_def Let_def update_conv')

lemma distinct_add_changes:
  "distinct (map fst st) \<Longrightarrow> distinct (map fst (add_changes y a d st))"
  by (simp add: add_changes_def Let_def distinct_update)

text \<open>The keys of the mapping stay distinct, as those of a dict are.\<close>

lemma distinct_process_line:
  "distinct (map fst (stats e)) \<Longrightarrow> distinct (map fst (stats (process_line l e)))"
  by (auto simp: process_line_def Let_def distinct_add_changes split: option.splits)

lemma distinct_run_lines:
  "distinct (map fst (stats e)) \<Longrightarrow> distinct (map fst (stats (run_lines ls e)))"
  by (induction ls arbitrary: e) (simp_all add: run_lines_Nil run_lines_Cons distinct_process_line)

lemma distinct_parse_log: "distinct (map fst (parse_log out))"
  unfolding parse_log_def by (rule distinct_run_lines) (simp add: init_def)

lemma is_year_not_Nil: "is_year y \<Longrightarrow> y \<noteq> []"
  by (auto simp: is_year_def)

lemma hd_digits_not_space: "\<not> py_isspace (hd (digits n))"
  using hd_digits [of n] is_digit_not_space by simp

lemma TAB_notin_digits: "TAB \<notin> set (digits n)"
  using digits_all_digit [of n] is_digit_not_space by (auto simp: list_all_iff)

section \<open>Facts about the file filter\<close>

text \<open>
  The filter in terms of lists alone: the path holds a piece that is \<open>sports_act\<close>
  letter by letter, each letter in either case, or the path ends with \<open>.md\<close>.
\<close>

lemma startswith_iff: "startswith s p \<longleftrightarrow> (\<exists>t. s = p @ t)"
  by (induction s p rule: startswith.induct) auto

lemma contains_iff: "contains s sub \<longleftrightarrow> (\<exists>pre post. s = pre @ sub @ post)"
proof (induction s)
  case Nil
  then show ?case by auto
next
  case (Cons c cs)
  show ?case
  proof
    assume "contains (c # cs) sub"
    then consider "startswith (c # cs) sub" | "contains cs sub" by auto
    then show "\<exists>pre post. c # cs = pre @ sub @ post"
    proof cases
      case 1
      then obtain t where "c # cs = sub @ t" by (auto simp: startswith_iff)
      then have "c # cs = [] @ sub @ t" by simp
      then show ?thesis by blast
    next
      case 2
      then obtain pre post where "cs = pre @ sub @ post" using Cons.IH by blast
      then have "c # cs = (c # pre) @ sub @ post" by simp
      then show ?thesis by blast
    qed
  next
    assume "\<exists>pre post. c # cs = pre @ sub @ post"
    then obtain pre post where e: "c # cs = pre @ sub @ post" by blast
    show "contains (c # cs) sub"
    proof (cases pre)
      case Nil
      then have "startswith (c # cs) sub" using e by (auto simp: startswith_iff)
      then show ?thesis by simp
    next
      case (Cons x xs)
      then have "cs = xs @ sub @ post" using e by simp
      then have "contains cs sub" using Cons.IH by blast
      then show ?thesis by simp
    qed
  qed
qed

lemma endswith_iff: "endswith s suf \<longleftrightarrow> (\<exists>pre. s = pre @ suf)"
proof -
  have "endswith s suf \<longleftrightarrow> (\<exists>t. rev s = rev suf @ t)"
    by (simp add: endswith_def startswith_iff)
  also have "\<dots> \<longleftrightarrow> (\<exists>pre. s = pre @ suf)"
  proof
    assume "\<exists>t. rev s = rev suf @ t"
    then obtain t where "rev s = rev suf @ t" by blast
    then have "s = rev t @ suf" by (metis rev_append rev_rev_ident)
    then show "\<exists>pre. s = pre @ suf" by blast
  next
    assume "\<exists>pre. s = pre @ suf"
    then show "\<exists>t. rev s = rev suf @ t" by auto
  qed
  finally show ?thesis .
qed

lemma lower_char_letter:
  assumes "97 \<le> (of_char l :: nat)" and "(of_char l :: nat) \<le> 122"
  shows "lower_char c = l \<longleftrightarrow> c = l \<or> (of_char c :: nat) + 32 = of_char l"
proof -
  let ?n = "of_char c :: nat"
  have b: "?n < 256" by simp
  show ?thesis
  proof (cases "(65 \<le> ?n \<and> ?n \<le> 90) \<or> (192 \<le> ?n \<and> ?n \<le> 222 \<and> ?n \<noteq> 215)")
    case True
    then have lc: "lower_char c = char_of (?n + 32)" by (simp add: lower_char_def Let_def)
    have "char_of (?n + 32) = l \<longleftrightarrow> (of_char (char_of (?n + 32) :: char) :: nat) = of_char l"
      by (simp only: of_char_eq_iff)
    also have "(of_char (char_of (?n + 32) :: char) :: nat) = ?n + 32"
    proof -
      have "?n + 32 < 256" using True by auto
      then show ?thesis by (simp add: of_char_of)
    qed
    finally have "lower_char c = l \<longleftrightarrow> ?n + 32 = of_char l" using lc by simp
    moreover have "c \<noteq> l" using True assms by auto
    ultimately show ?thesis by simp
  next
    case False
    then have "lower_char c = c" by (auto simp: lower_char_def Let_def)
    moreover have "?n + 32 \<noteq> of_char l" using False assms by auto
    ultimately show ?thesis by simp
  qed
qed

lemma lower_char_other:
  assumes "(of_char l :: nat) < 97"
  shows "lower_char c = l \<longleftrightarrow> c = l \<and> \<not> (65 \<le> (of_char l :: nat) \<and> (of_char l :: nat) \<le> 90)"
proof -
  let ?n = "of_char c :: nat"
  show ?thesis
  proof (cases "(65 \<le> ?n \<and> ?n \<le> 90) \<or> (192 \<le> ?n \<and> ?n \<le> 222 \<and> ?n \<noteq> 215)")
    case True
    then have lc: "lower_char c = char_of (?n + 32)" by (simp add: lower_char_def Let_def)
    have "(of_char (char_of (?n + 32) :: char) :: nat) = ?n + 32"
    proof -
      have "?n + 32 < 256" using True by auto
      then show ?thesis by (simp add: of_char_of)
    qed
    then have "(of_char (lower_char c) :: nat) \<ge> 97" using True lc by auto
    then have "lower_char c \<noteq> l" using assms by auto
    moreover have "c = l \<longrightarrow> (65 \<le> (of_char l :: nat) \<and> (of_char l :: nat) \<le> 90)"
      using True assms by auto
    ultimately show ?thesis by blast
  next
    case False
    then have "lower_char c = c" by (auto simp: lower_char_def Let_def)
    then show ?thesis using False assms by auto
  qed
qed

lemma of_char_code_iff:
  assumes "(of_char u :: nat) = k"
  shows "(of_char c :: nat) = k \<longleftrightarrow> c = u"
  unfolding assms [symmetric] by (simp only: of_char_eq_iff)

lemma lower_char_marker:
  "lower_char c = CHR ''s'' \<longleftrightarrow> c = CHR ''s'' \<or> c = CHR ''S''"
  "lower_char c = CHR ''p'' \<longleftrightarrow> c = CHR ''p'' \<or> c = CHR ''P''"
  "lower_char c = CHR ''o'' \<longleftrightarrow> c = CHR ''o'' \<or> c = CHR ''O''"
  "lower_char c = CHR ''r'' \<longleftrightarrow> c = CHR ''r'' \<or> c = CHR ''R''"
  "lower_char c = CHR ''t'' \<longleftrightarrow> c = CHR ''t'' \<or> c = CHR ''T''"
  "lower_char c = CHR ''a'' \<longleftrightarrow> c = CHR ''a'' \<or> c = CHR ''A''"
  "lower_char c = CHR ''c'' \<longleftrightarrow> c = CHR ''c'' \<or> c = CHR ''C''"
  "lower_char c = CHR ''_'' \<longleftrightarrow> c = CHR ''_''"
proof -
  show "lower_char c = CHR ''s'' \<longleftrightarrow> c = CHR ''s'' \<or> c = CHR ''S''"
    by (subst lower_char_letter) (simp_all add: of_char_code_iff [where u = "CHR ''S''"])
  show "lower_char c = CHR ''p'' \<longleftrightarrow> c = CHR ''p'' \<or> c = CHR ''P''"
    by (subst lower_char_letter) (simp_all add: of_char_code_iff [where u = "CHR ''P''"])
  show "lower_char c = CHR ''o'' \<longleftrightarrow> c = CHR ''o'' \<or> c = CHR ''O''"
    by (subst lower_char_letter) (simp_all add: of_char_code_iff [where u = "CHR ''O''"])
  show "lower_char c = CHR ''r'' \<longleftrightarrow> c = CHR ''r'' \<or> c = CHR ''R''"
    by (subst lower_char_letter) (simp_all add: of_char_code_iff [where u = "CHR ''R''"])
  show "lower_char c = CHR ''t'' \<longleftrightarrow> c = CHR ''t'' \<or> c = CHR ''T''"
    by (subst lower_char_letter) (simp_all add: of_char_code_iff [where u = "CHR ''T''"])
  show "lower_char c = CHR ''a'' \<longleftrightarrow> c = CHR ''a'' \<or> c = CHR ''A''"
    by (subst lower_char_letter) (simp_all add: of_char_code_iff [where u = "CHR ''A''"])
  show "lower_char c = CHR ''c'' \<longleftrightarrow> c = CHR ''c'' \<or> c = CHR ''C''"
    by (subst lower_char_letter) (simp_all add: of_char_code_iff [where u = "CHR ''C''"])
  show "lower_char c = CHR ''_'' \<longleftrightarrow> c = CHR ''_''"
    by (subst lower_char_other) simp_all
qed

lemma lower_eq_marker:
  "lower u = ''sports_act'' \<longleftrightarrow>
     list_all2 (\<lambda>c (l, U). c = l \<or> c = U) u (zip ''sports_act'' ''SPORTS_ACT'')"
proof -
  have "lower u = ''sports_act'' \<longleftrightarrow> list_all2 (\<lambda>c l. lower_char c = l) u ''sports_act''"
    unfolding lower_def list_all2_eq by (simp only: list_all2_map1)
  also have "\<dots> \<longleftrightarrow> list_all2 (\<lambda>c (l, U). c = l \<or> c = U) u (zip ''sports_act'' ''SPORTS_ACT'')"
    by (simp add: list_all2_Cons2 lower_char_marker)
  finally show ?thesis .
qed

lemma contains_lower_iff:
  "contains (lower p) m \<longleftrightarrow> (\<exists>pre u post. p = pre @ u @ post \<and> lower u = m)"
proof
  assume "contains (lower p) m"
  then obtain a b where "map lower_char p = a @ m @ b"
    by (auto simp: contains_iff lower_def)
  then obtain pre r where p: "p = pre @ r" and r: "m @ b = map lower_char r"
    by (auto simp: map_eq_append_conv)
  from r obtain u post where "r = u @ post" and "map lower_char u = m"
    by (auto simp: append_eq_map_conv)
  then show "\<exists>pre u post. p = pre @ u @ post \<and> lower u = m"
    using p by (auto simp: lower_def)
next
  assume "\<exists>pre u post. p = pre @ u @ post \<and> lower u = m"
  then obtain pre u post where "p = pre @ u @ post" and "lower u = m" by blast
  then have "lower p = lower pre @ m @ lower post" by (auto simp: lower_def)
  then show "contains (lower p) m" unfolding contains_iff by blast
qed

lemma file_filter_iff:
  "file_filter p \<longleftrightarrow>
     (\<exists>pre u post. p = pre @ u @ post \<and>
        list_all2 (\<lambda>c (l, U). c = l \<or> c = U) u (zip ''sports_act'' ''SPORTS_ACT'')) \<or>
     (\<exists>pre. p = pre @ ''.md'')"
  unfolding file_filter_def contains_lower_iff endswith_iff lower_eq_marker ..

section \<open>Claims about the extractor\<close>

lemma strip_trailing_blanks:
  assumes "s \<noteq> []" and "\<not> py_isspace (hd s)" and "\<not> py_isspace (last s)"
    and "list_all py_isspace ws"
  shows "strip (s @ ws) = s"
proof -
  have "dropWhile py_isspace (s @ ws) = s @ ws"
    using assms(1,2) by (intro dropWhile_id) simp_all
  moreover have "dropWhile py_isspace (rev ws @ rev s) = dropWhile py_isspace (rev s)"
    using assms(4) by (intro dropWhile_append2) (simp add: list_all_iff)
  moreover have "dropWhile py_isspace (rev s) = rev s"
    using assms(1,3) by (intro dropWhile_id) (simp_all add: hd_rev)
  ultimately show ?thesis by (simp add: strip_def)
qed

lemma process_line_strip_cong:
  "strip r1 = strip r2 \<Longrightarrow> process_line r1 e = process_line r2 e"
  by (simp add: process_line_def)

lemma digits_not_filtered: "list_all is_digit s \<Longrightarrow> \<not> file_filter s"
proof
  assume d: "list_all is_digit s" and "file_filter s"
  then consider pre u post where "s = pre @ u @ post"
      "list_all2 (\<lambda>c (l, U). c = l \<or> c = U) u (zip ''sports_act'' ''SPORTS_ACT'')"
    | pre where "s = pre @ ''.md''"
    unfolding file_filter_iff by blast
  then show False
  proof cases
    case 1
    from 1(2) obtain c cs where "u = c # cs" and "c = CHR ''s'' \<or> c = CHR ''S''"
      by (cases u) auto
    then have "is_digit (CHR ''s'') \<or> is_digit (CHR ''S'')"
      using d 1(1) by auto
    then show False by (simp add: is_digit_def)
  next
    case 2
    then have "is_digit (CHR ''.'')" using d by simp
    then show False by (simp add: is_digit_def)
  qed
qed

lemma process_numstat_line_blanks:
  assumes "current_year e = Some y" and "y \<noteq> []"
    and "TAB \<notin> set p" and "p = [] \<or> \<not> py_isspace (last p)" and "list_all py_isspace ws"
  shows "process_line (digits a @ TAB # digits d @ TAB # p @ ws) e =
           (if file_filter p then e\<lparr>stats := add_changes y (int a) (int d) (stats e)\<rparr> else e)"
proof (cases "p = []")
  case True
  let ?s = "digits a @ TAB # digits d"
  have blank: "list_all py_isspace (TAB # ws)"
    using assms(5) by (simp add: py_isspace_def TAB_def)
  have shape: "?s \<noteq> []" "\<not> py_isspace (hd ?s)" "\<not> py_isspace (last ?s)"
    using hd_digits_not_space [of a] last_digits [of d] is_digit_not_space digits_not_Nil
    by auto
  have "strip (?s @ TAB # ws) = ?s"
    using shape blank by (rule strip_trailing_blanks)
  moreover have s: "strip ?s = ?s"
    using shape by (rule strip_id)
  ultimately have "process_line (?s @ TAB # ws) e = process_line ?s e"
    by (intro process_line_strip_cong) simp
  moreover have sp: "split_on TAB ?s = [digits a, digits d]"
    by (simp add: split_on_sep_free split_on_no_sep TAB_notin_digits)
  have ny: "\<not> is_year ?s" using is_year_no_TAB [of ?s] by auto
  have nf: "\<not> file_filter (digits d)" "\<not> file_filter []"
    using digits_not_filtered digits_all_digit by simp_all
  have "process_line ?s e = e"
    using assms(1,2) nf by (simp add: process_line_def Let_def s sp ny numfield_digits)
  ultimately show ?thesis using True nf by simp
next
  case False
  let ?s = "digits a @ TAB # digits d @ TAB # p"
  have "strip (?s @ ws) = ?s"
    using False assms(4,5) hd_digits_not_space [of a] digits_not_Nil
    by (intro strip_trailing_blanks) auto
  moreover have "strip ?s = ?s"
    using False assms(4) hd_digits_not_space [of a] digits_not_Nil
    by (intro strip_id) auto
  ultimately have "process_line (?s @ ws) e = process_line ?s e"
    by (intro process_line_strip_cong) simp
  also have "\<dots> = (if file_filter p then e\<lparr>stats := add_changes y (int a) (int d) (stats e)\<rparr> else e)"
    using assms False
    by (simp add: process_numstat_line [where y = y] hd_digits_not_space
        TAB_notin_digits digits_not_Nil numfield_digits)
  finally show ?thesis by simp
qed

text \<open>
  C1, as amended. A numstat line \<open>a TAB d TAB path\<close> with \<open>a\<close> and \<open>d\<close> unsigned
  decimal numerals, processed while the cursor is the year \<open>y\<close>. The line is stripped
  before it is split, so the filter sees the path without the blanks at its end: the
  path is \<open>p\<close> followed by the blanks \<open>ws\<close>, where \<open>p\<close> holds no tab and does not
  end in a blank. When \<open>p\<close> holds \<open>sports_act\<close>, each letter in either case, or
  ends with \<open>.md\<close>, the totals of \<open>y\<close> grow by exactly \<open>a\<close> additions and \<open>d\<close>
  deletions; when \<open>p\<close> matches neither, the mapping is unchanged.
\<close>

theorem numstat_line_accumulates:
  assumes "current_year e = Some y" and "is_year y"
    and "TAB \<notin> set p" and "p = [] \<or> \<not> py_isspace (last p)" and "list_all py_isspace ws"
    and "e' = process_line (py_str (int a) @ [TAB] @ py_str (int d) @ [TAB] @ p @ ws) e"
    and "matches \<longleftrightarrow>
           (\<exists>pre u post. p = pre @ u @ post \<and>
              list_all2 (\<lambda>c (l, U). c = l \<or> c = U) u (zip ''sports_act'' ''SPORTS_ACT'')) \<or>
           (\<exists>pre. p = pre @ ''.md'')"
  shows "(matches \<longrightarrow>
            additions (year_totals (stats e') y) = additions (year_totals (stats e) y) + int a \<and>
            deletions (year_totals (stats e') y) = deletions (year_totals (stats e) y) + int d) \<and>
         (\<not> matches \<longrightarrow> stats e' = stats e)"
proof -
  have m: "matches \<longleftrightarrow> file_filter p"
    unfolding assms(7) file_filter_iff ..
  have "e' = (if file_filter p then e\<lparr>stats := add_changes y (int a) (int d) (stats e)\<rparr> else e)"
    using assms(1-5) is_year_not_Nil [of y]
    by (simp add: assms(6) py_str_nat process_numstat_line_blanks [where y = y])
  then show ?thesis
    by (simp add: m year_totals_add_changes)
qed

theorem numstat_line_accumulates_witness:
  "current_year \<lparr>stats = [(''2023'', \<lparr>additions = 10, deletions = 20\<rparr>)], current_year = Some ''2023''\<rparr>
     = Some ''2023'' \<and> is_year ''2023'' \<and>
   TAB \<notin> set ''Docs/Sports_ACT.txt'' \<and> \<not> py_isspace (last ''Docs/Sports_ACT.txt'') \<and>
   list_all py_isspace '' '' \<and>
   ''Docs/Sports_ACT.txt'' = ''Docs/'' @ ''Sports_ACT'' @ ''.txt'' \<and>
   list_all2 (\<lambda>c (l, U). c = l \<or> c = U) ''Sports_ACT'' (zip ''sports_act'' ''SPORTS_ACT'') \<and>
   year_totals (stats (process_line (py_str 5 @ [TAB] @ py_str 3 @ [TAB] @ ''Docs/Sports_ACT.txt'' @ '' '')
       \<lparr>stats = [(''2023'', \<lparr>additions = 10, deletions = 20\<rparr>)], current_year = Some ''2023''\<rparr>)) ''2023''
     = \<lparr>additions = 15, deletions = 23\<rparr> \<and>
   TAB \<notin> set ''notes.txt'' \<and> \<not> py_isspace (last ''notes.txt'') \<and> \<not> file_filter ''notes.txt'' \<and>
   stats (process_line (py_str 5 @ [TAB] @ py_str 3 @ [TAB] @ ''notes.txt'' @ '' '')
       \<lparr>stats = [(''2023'', \<lparr>additions = 10, deletions = 20\<rparr>)], current_year = Some ''2023''\<rparr>)
     = [(''2023'', \<lparr>additions = 10, deletions = 20\<rparr>)]"
proof -
  let ?e = "\<lparr>stats = [(''2023'', \<lparr>additions = 10, deletions = 20\<rparr>)], current_year = Some ''2023''\<rparr>"
  let ?P = "\<lambda>c (l, U). c = l \<or> c = U"
  have h1: "current_year ?e = Some ''2023''" by simp
  have h2: "is_year ''2023''" by code_simp
  have h3: "TAB \<notin> set ''Docs/Sports_ACT.txt''" by code_simp
  have h4: "\<not> py_isspace (last ''Docs/Sports_ACT.txt'')" by code_simp
  have h5: "list_all py_isspace '' ''" by code_simp
  have d: "''Docs/Sports_ACT.txt'' = ''Docs/'' @ ''Sports_ACT'' @ ''.txt''" by simp
  have m: "list_all2 ?P ''Sports_ACT'' (zip ''sports_act'' ''SPORTS_ACT'')" by simp
  have h7: "True \<longleftrightarrow>
      (\<exists>pre u post. ''Docs/Sports_ACT.txt'' = pre @ u @ post \<and>
         list_all2 ?P u (zip ''sports_act'' ''SPORTS_ACT'')) \<or>
      (\<exists>pre. ''Docs/Sports_ACT.txt'' = pre @ ''.md'')"
    using d m by blast
  have t: "year_totals (stats ?e) ''2023'' = \<lparr>additions = 10, deletions = 20\<rparr>"
    by (simp add: year_totals_def)
  have r1: "year_totals (stats (process_line (py_str 5 @ [TAB] @ py_str 3 @ [TAB] @ ''Docs/Sports_ACT.txt'' @ '' '') ?e)) ''2023''
     = \<lparr>additions = 15, deletions = 23\<rparr>"
    using numstat_line_accumulates [OF h1 h2 h3 disjI2 [OF h4] h5 refl h7, of 5 3] t
    by (simp add: totals.equality)
  have g3: "TAB \<notin> set ''notes.txt''" by code_simp
  have g4: "\<not> py_isspace (last ''notes.txt'')" by code_simp
  have nf: "\<not> file_filter ''notes.txt''" by code_simp
  have g7: "False \<longleftrightarrow>
      (\<exists>pre u post. ''notes.txt'' = pre @ u @ post \<and>
         list_all2 ?P u (zip ''sports_act'' ''SPORTS_ACT'')) \<or>
      (\<exists>pre. ''notes.txt'' = pre @ ''.md'')"
    using nf unfolding file_filter_iff by blast
  have r2: "stats (process_line (py_str 5 @ [TAB] @ py_str 3 @ [TAB] @ ''notes.txt'' @ '' '') ?e)
     = [(''2023'', \<lparr>additions = 10, deletions = 20\<rparr>)]"
    using numstat_line_accumulates [OF h1 h2 g3 disjI2 [OF g4] h5 refl g7, of 5 3]
    by simp
  show ?thesis
    using h1 h2 h3 h4 h5 d m r1 g3 g4 nf r2 by blast
qed

text \<open>
  C1, as stated, fails: the path \<open>notes.md\<close> followed by a space neither holds
  \<open>sports_act\<close> nor ends with \<open>.md\<close>, and its line is counted, the space being
  stripped with the line.
\<close>

theorem blank_after_path_counterexample:
  "\<not> contains (lower ''notes.md '') ''sports_act'' \<and> \<not> endswith ''notes.md '' ''.md'' \<and>
   get_git_stats \<lparr>returncode = 0,
       stdout = ''2023'' @ [NL] @ ''5'' @ [TAB] @ ''3'' @ [TAB] @ ''notes.md '' @ [NL], stderr = []\<rparr>
     = [(''2023'', \<lparr>additions = 5, deletions = 3\<rparr>)]"
  by code_simp

lemma numfield_marker: "numfield ''-'' = Some 0"
  by (simp add: numfield_def)

lemma marker_shape: "''-'' \<noteq> []" "\<not> py_isspace (hd ''-'')" "TAB \<notin> set ''-''"
  by (simp_all add: py_isspace_def TAB_def)

text \<open>
  C4. On a numstat line whose path passes the filter, a field that is the marker
  \<open>-\<close> adds 0 to its total of the current year, and the other field still adds its
  value: \<open>- TAB d TAB path\<close> leaves the additions and adds \<open>d\<close> deletions,
  \<open>a TAB - TAB path\<close> adds \<open>a\<close> additions and leaves the deletions.
\<close>

theorem binary_marker_counts_zero:
  assumes "current_year e = Some y" and "is_year y"
    and "TAB \<notin> set path" and "path \<noteq> []" and "\<not> py_isspace (last path)"
    and "file_filter path"
  shows "additions (year_totals (stats (process_line (''-'' @ [TAB] @ py_str (int d) @ [TAB] @ path) e)) y)
           = additions (year_totals (stats e) y) \<and>
         deletions (year_totals (stats (process_line (''-'' @ [TAB] @ py_str (int d) @ [TAB] @ path) e)) y)
           = deletions (year_totals (stats e) y) + int d \<and>
         additions (year_totals (stats (process_line (py_str (int a) @ [TAB] @ ''-'' @ [TAB] @ path) e)) y)
           = additions (year_totals (stats e) y) + int a \<and>
         deletions (year_totals (stats (process_line (py_str (int a) @ [TAB] @ ''-'' @ [TAB] @ path) e)) y)
           = deletions (year_totals (stats e) y)"
proof -
  have y: "y \<noteq> []" using assms(2) by (rule is_year_not_Nil)
  have "process_line (''-'' @ TAB # digits d @ TAB # path) e =
          e\<lparr>stats := add_changes y 0 (int d) (stats e)\<rparr>"
    using assms y marker_shape
    by (subst process_numstat_line [where y = y])
       (simp_all add: TAB_notin_digits numfield_digits numfield_marker)
  moreover have "process_line (digits a @ TAB # ''-'' @ TAB # path) e =
          e\<lparr>stats := add_changes y (int a) 0 (stats e)\<rparr>"
    using assms y marker_shape
    by (subst process_numstat_line [where y = y])
       (simp_all add: TAB_notin_digits hd_digits_not_space digits_not_Nil numfield_digits numfield_marker)
  ultimately show ?thesis
    by (simp add: py_str_nat year_totals_add_changes)
qed

theorem binary_marker_counts_zero_witness:
  "current_year \<lparr>stats = [(''2023'', \<lparr>additions = 10, deletions = 20\<rparr>)], current_year = Some ''2023''\<rparr>
     = Some ''2023'' \<and> is_year ''2023'' \<and>
   TAB \<notin> set ''logo_sports_act.png'' \<and> ''logo_sports_act.png'' \<noteq> [] \<and>
   \<not> py_isspace (last ''logo_sports_act.png'') \<and> file_filter ''logo_sports_act.png'' \<and>
   year_totals (stats (process_line (''-'' @ [TAB] @ py_str 7 @ [TAB] @ ''logo_sports_act.png'')
       \<lparr>stats = [(''2023'', \<lparr>additions = 10, deletions = 20\<rparr>)], current_year = Some ''2023''\<rparr>)) ''2023''
     = \<lparr>additions = 10, deletions = 27\<rparr> \<and>
   year_totals (stats (process_line (py_str 4 @ [TAB] @ ''-'' @ [TAB] @ ''logo_sports_act.png'')
       \<lparr>stats = [(''2023'', \<lparr>additions = 10, deletions = 20\<rparr>)], current_year = Some ''2023''\<rparr>)) ''2023''
     = \<lparr>additions = 14, deletions = 20\<rparr>"
proof -
  let ?e = "\<lparr>stats = [(''2023'', \<lparr>additions = 10, deletions = 20\<rparr>)], current_year = Some ''2023''\<rparr>"
  have h1: "current_year ?e = Some ''2023''" by simp
  have h2: "is_year ''2023''" by code_simp
  have h3: "TAB \<notin> set ''logo_sports_act.png''" by code_simp
  have h4: "''logo_sports_act.png'' \<noteq> []" by simp
  have h5: "\<not> py_isspace (last ''logo_sports_act.png'')" by code_simp
  have h6: "file_filter ''logo_sports_act.png''" by code_simp
  have t: "year_totals (stats ?e) ''2023'' = \<lparr>additions = 10, deletions = 20\<rparr>"
    by (simp add: year_totals_def)
  show ?thesis
    using binary_marker_counts_zero [OF h1 h2 h3 h4 h5 h6, of 7 4] h1 h2 h3 h4 h5 h6 t
    by (simp add: totals.equality)
qed

text \<open>
  C10. A line \<open>- TAB - TAB path\<close> whose path passes the filter, processed while the
  cursor is a year that has no entry yet, creates the entry of that year with both
  totals 0: a year can be present with additions = 0 and deletions = 0.
\<close>

theorem binary_file_creates_zero_entry:
  assumes "current_year e = Some y" and "is_year y"
    and "TAB \<notin> set path" and "path \<noteq> []" and "\<not> py_isspace (last path)"
    and "file_filter path" and "map_of (stats e) y = None"
  shows "map_of (stats (process_line (''-'' @ [TAB] @ ''-'' @ [TAB] @ path) e)) y
           = Some \<lparr>additions = 0, deletions = 0\<rparr>"
proof -
  have y: "y \<noteq> []" using assms(2) by (rule is_year_not_Nil)
  have "process_line (''-'' @ TAB # ''-'' @ TAB # path) e =
          e\<lparr>stats := add_changes y 0 0 (stats e)\<rparr>"
    using assms y marker_shape
    by (subst process_numstat_line [where y = y]) (simp_all add: numfield_marker)
  then show ?thesis
    using assms(7) by (simp add: map_of_add_changes_same year_totals_def)
qed

theorem binary_file_creates_zero_entry_witness:
  "current_year \<lparr>stats = [], current_year = Some ''2023''\<rparr> = Some ''2023'' \<and> is_year ''2023'' \<and>
   TAB \<notin> set ''scan.md'' \<and> ''scan.md'' \<noteq> [] \<and> \<not> py_isspace (last ''scan.md'') \<and>
   file_filter ''scan.md'' \<and> map_of (stats \<lparr>stats = [], current_year = Some ''2023''\<rparr>) ''2023'' = None \<and>
   map_of (stats (process_line (''-'' @ [TAB] @ ''-'' @ [TAB] @ ''scan.md'')
       \<lparr>stats = [], current_year = Some ''2023''\<rparr>)) ''2023'' = Some \<lparr>additions = 0, deletions = 0\<rparr>"
proof -
  let ?e = "\<lparr>stats = [], current_year = Some ''2023''\<rparr>"
  have h1: "current_year ?e = Some ''2023''" by simp
  have h2: "is_year ''2023''" by code_simp
  have h3: "TAB \<notin> set ''scan.md''" by code_simp
  have h4: "''scan.md'' \<noteq> []" by simp
  have h5: "\<not> py_isspace (last ''scan.md'')" by code_simp
  have h6: "file_filter ''scan.md''" by code_simp
  have h7: "map_of (stats ?e) ''2023'' = None" by simp
  show ?thesis
    using binary_file_creates_zero_entry [OF h1 h2 h3 h4 h5 h6 h7] h1 h2 h3 h4 h5 h6 h7
    by simp
qed

text \<open>
  The same on a whole stream: one commit of 2023 that touches one binary file.
\<close>

lemma binary_file_only_stream:
  "parse_log (''2023'' @ [NL] @ ''-'' @ [TAB] @ ''-'' @ [TAB] @ ''scan.md'' @ [NL])
     = [(''2023'', \<lparr>additions = 0, deletions = 0\<rparr>)]"
  by code_simp

text \<open>
  C8. When the command printed nothing, the mapping is empty, whatever the return
  code and the error output of the command are: neither is looked at.
\<close>

theorem empty_output_empty_mapping:
  "get_git_stats \<lparr>returncode = rc, stdout = [], stderr = err\<rparr> = []"
  by (simp add: get_git_stats_def parse_log_def run_lines_def process_line_def strip_def init_def)

lemma process_line_no_cursor:
  "current_year e = None \<Longrightarrow> \<not> is_year (strip l) \<Longrightarrow> process_line l e = e"
  by (simp add: process_line_def Let_def)

lemma run_lines_no_cursor:
  "current_year e = None \<Longrightarrow> \<forall>l \<in> set ls. \<not> is_year (strip l) \<Longrightarrow> run_lines ls e = e"
  by (induction ls arbitrary: e) (simp_all add: run_lines_Nil run_lines_Cons process_line_no_cursor)

text \<open>
  C9. The lines before the first year line are ignored entirely: when no line of
  \<open>pre\<close> is a year line, the loop leaves the initial state unchanged over \<open>pre\<close>
  (no entry, no cursor), and the mapping of the stream \<open>pre\<close>, newline, \<open>rest\<close> is
  the mapping of \<open>rest\<close> alone.
\<close>

theorem lines_before_first_year_ignored:
  assumes "\<forall>l \<in> set (split_on NL pre). \<not> is_year (strip l)"
  shows "run_lines (split_on NL pre) init = init \<and>
         parse_log (pre @ [NL] @ rest) = parse_log rest"
proof -
  have "run_lines (split_on NL pre) init = init"
    using assms by (intro run_lines_no_cursor) (simp_all add: init_def)
  then show ?thesis
    by (simp add: parse_log_def split_on_append run_lines_append)
qed

theorem lines_before_first_year_ignored_witness:
  "list_all (\<lambda>l. \<not> is_year (strip l))
     (split_on NL (''7'' @ [TAB] @ ''7'' @ [TAB] @ ''a.md'' @ [NL] @ ''20233'')) \<and>
   parse_log ((''7'' @ [TAB] @ ''7'' @ [TAB] @ ''a.md'' @ [NL] @ ''20233'') @ [NL] @
              (''2023'' @ [NL] @ ''1'' @ [TAB] @ ''2'' @ [TAB] @ ''a.md''))
     = [(''2023'', \<lparr>additions = 1, deletions = 2\<rparr>)]"
proof -
  have h: "\<forall>l \<in> set (split_on NL (''7'' @ [TAB] @ ''7'' @ [TAB] @ ''a.md'' @ [NL] @ ''20233'')). \<not> is_year (strip l)"
    by code_simp
  have r: "parse_log (''2023'' @ [NL] @ ''1'' @ [TAB] @ ''2'' @ [TAB] @ ''a.md'')
     = [(''2023'', \<lparr>additions = 1, deletions = 2\<rparr>)]"
    by code_simp
  show ?thesis
    using lines_before_first_year_ignored [OF h, of "''2023'' @ [NL] @ ''1'' @ [TAB] @ ''2'' @ [TAB] @ ''a.md''"] h r
    by (simp add: list_all_iff)
qed

lemma process_line_malformed:
  assumes "2 \<le> length (split_on TAB (strip raw))"
    and "numfield (split_on TAB (strip raw) ! 0) = None \<or> numfield (split_on TAB (strip raw) ! 1) = None"
  shows "process_line raw e = e"
proof -
  have "\<not> is_year (strip raw)"
  proof
    assume "is_year (strip raw)"
    then have "split_on TAB (strip raw) = [strip raw]"
      by (simp add: is_year_no_TAB split_on_no_sep)
    then show False using assms(1) by simp
  qed
  then show ?thesis
    using assms by (auto simp: process_line_def Let_def split: option.splits)
qed

text \<open>
  C5. A line with at least two tab-separated fields, one of the first two being
  neither \<open>-\<close> nor readable by \<open>int\<close>, changes nothing (no total, no entry, no
  cursor), and the loop goes on: the mapping of a stream that holds such a line is
  the mapping of the stream without it. The \<open>ValueError\<close> is the \<open>None\<close> that
  \<^const>\<open>process_line\<close> absorbs; \<^const>\<open>parse_log\<close> has no error result.
\<close>

theorem malformed_line_skipped:
  assumes "NL \<notin> set raw"
    and "2 \<le> length (split_on TAB (strip raw))"
    and "(split_on TAB (strip raw) ! 0 \<noteq> ''-'' \<and> py_int (split_on TAB (strip raw) ! 0) = None) \<or>
         (split_on TAB (strip raw) ! 1 \<noteq> ''-'' \<and> py_int (split_on TAB (strip raw) ! 1) = None)"
  shows "process_line raw e = e \<and>
         parse_log (pre @ [NL] @ raw @ [NL] @ post) = parse_log (pre @ [NL] @ post)"
proof -
  have nf: "numfield (split_on TAB (strip raw) ! 0) = None \<or> numfield (split_on TAB (strip raw) ! 1) = None"
    using assms(3) by (auto simp: numfield_def)
  have step: "process_line raw e' = e'" for e'
    using assms(2) nf by (rule process_line_malformed)
  have "split_on NL (pre @ NL # raw @ NL # post) = split_on NL pre @ [raw] @ split_on NL post"
    using assms(1) by (simp add: split_on_append split_on_no_sep)
  then have "parse_log (pre @ [NL] @ raw @ [NL] @ post) = parse_log (pre @ [NL] @ post)"
    by (simp add: parse_log_def split_on_append run_lines_append run_lines_Cons step)
  then show ?thesis using step by simp
qed

theorem malformed_line_skipped_witness:
  "NL \<notin> set (''abc'' @ [TAB] @ ''1'' @ [TAB] @ ''file.md'') \<and>
   2 \<le> length (split_on TAB (strip (''abc'' @ [TAB] @ ''1'' @ [TAB] @ ''file.md''))) \<and>
   split_on TAB (strip (''abc'' @ [TAB] @ ''1'' @ [TAB] @ ''file.md'')) ! 0 \<noteq> ''-'' \<and>
   py_int (split_on TAB (strip (''abc'' @ [TAB] @ ''1'' @ [TAB] @ ''file.md'')) ! 0) = None \<and>
   parse_log (''2023'' @ [NL] @ (''abc'' @ [TAB] @ ''1'' @ [TAB] @ ''file.md'') @ [NL] @ (''4'' @ [TAB] @ ''2'' @ [TAB] @ ''file.md''))
     = [(''2023'', \<lparr>additions = 4, deletions = 2\<rparr>)]"
proof -
  let ?raw = "''abc'' @ [TAB] @ ''1'' @ [TAB] @ ''file.md''"
  have h1: "NL \<notin> set ?raw" by code_simp
  have h2: "2 \<le> length (split_on TAB (strip ?raw))" by code_simp
  have h3: "split_on TAB (strip ?raw) ! 0 \<noteq> ''-'' \<and> py_int (split_on TAB (strip ?raw) ! 0) = None"
    by code_simp
  have r: "parse_log (''2023'' @ [NL] @ (''4'' @ [TAB] @ ''2'' @ [TAB] @ ''file.md''))
     = [(''2023'', \<lparr>additions = 4, deletions = 2\<rparr>)]"
    by code_simp
  show ?thesis
    using malformed_line_skipped [OF h1 h2 disjI1 [OF h3], of _ "''2023''" "''4'' @ [TAB] @ ''2'' @ [TAB] @ ''file.md''"]
      h1 h2 h3 r
    by simp
qed

lemma set_update_subset: "set (AList.update k v al) \<subseteq> insert (k, v) (set al)"
  by (induction al) auto

lemma year_totals_nonneg:
  "all_nonneg st \<Longrightarrow> 0 \<le> additions (year_totals st y) \<and> 0 \<le> deletions (year_totals st y)"
  by (auto simp: all_nonneg_def year_totals_def split: option.splits dest!: map_of_SomeD)

lemma all_nonneg_add_changes:
  assumes "all_nonneg st" and "0 \<le> a" and "0 \<le> d"
  shows "all_nonneg (add_changes y a d st)"
proof -
  have "0 \<le> additions (year_totals st y) + a \<and> 0 \<le> deletions (year_totals st y) + d"
    using year_totals_nonneg [OF assms(1), of y] assms(2,3) by simp
  then show ?thesis
    using assms(1) set_update_subset [of y _ st]
    by (fastforce simp: all_nonneg_def add_changes_def Let_def)
qed

lemma split_on_decomp:
  "split_on c l = p # q # qs \<Longrightarrow> \<exists>r. l = p @ c # r \<and> c \<notin> set p \<and> split_on c r = q # qs"
proof (induction l arbitrary: p)
  case Nil
  then show ?case by simp
next
  case (Cons x xs)
  show ?case
  proof (cases "x = c")
    case True
    then show ?thesis using Cons.prems by (intro exI [of _ xs]) auto
  next
    case False
    then obtain p' where p: "p = x # p'" and s: "split_on c xs = p' # q # qs"
      using Cons.prems by (auto split: list.splits)
    from Cons.IH [OF s] obtain r where "xs = p' @ c # r" "c \<notin> set p'" "split_on c r = q # qs"
      by blast
    then show ?thesis using p False by (intro exI [of _ r]) auto
  qed
qed

lemma split_on_single: "length (split_on c l) = 1 \<longleftrightarrow> c \<notin> set l"
proof
  assume "length (split_on c l) = 1"
  then show "c \<notin> set l"
    by (induction l) (auto split: list.splits if_splits simp: split_on_not_Nil)
next
  assume "c \<notin> set l"
  then show "length (split_on c l) = 1" by (simp add: split_on_no_sep)
qed

lemma split_on_three:
  assumes "3 \<le> length (split_on c l)"
  shows "\<exists>rest. l = (split_on c l ! 0) @ c # (split_on c l ! 1) @ c # rest \<and>
                c \<notin> set (split_on c l ! 0) \<and> c \<notin> set (split_on c l ! 1)"
proof -
  obtain p ps where 1: "split_on c l = p # ps" and "2 \<le> length ps"
    using assms by (cases "split_on c l") auto
  then obtain q qs' where 2: "ps = q # qs'" and "1 \<le> length qs'"
    by (cases ps) auto
  then obtain q2 qs where 3: "qs' = q2 # qs"
    by (cases qs') auto
  have s: "split_on c l = p # q # q2 # qs"
    using 1 2 3 by simp
  from split_on_decomp [OF s] obtain r where r: "l = p @ c # r" "c \<notin> set p" "split_on c r = q # q2 # qs"
    by blast
  from split_on_decomp [OF r(3)] obtain r2 where "r = q @ c # r2" "c \<notin> set q"
    by blast
  then show ?thesis using s r by (intro exI [of _ r2]) simp
qed

lemma numstat_count_shape:
  assumes "numstat_count f"
  shows "f \<noteq> []" and "\<forall>c \<in> set f. \<not> py_isspace c"
proof -
  show "f \<noteq> []" using assms by (auto simp: numstat_count_def)
  have "\<not> py_isspace (CHR ''-'')" by (simp add: py_isspace_def)
  then show "\<forall>c \<in> set f. \<not> py_isspace c"
    using assms is_digit_not_space by (auto simp: numstat_count_def list_all_iff)
qed

lemma py_int_unsigned:
  assumes "py_int f = Some n" and "CHR ''-'' \<notin> set f"
  shows "0 \<le> n"
proof -
  have "set (int_strip f) \<subseteq> set f"
    unfolding int_strip_def by (auto dest!: set_dropWhileD)
  then have "CHR ''-'' \<notin> set (int_strip f)" using assms(2) by blast
  then show ?thesis
    using assms(1) by (auto simp: py_int_def split: list.splits if_splits)
qed

lemma numfield_count_nonneg:
  assumes "numstat_count f" and "numfield f = Some n"
  shows "0 \<le> n"
proof (cases "f = ''-''")
  case True
  then show ?thesis using assms(2) by (simp add: numfield_def)
next
  case False
  then have "list_all is_digit f" using assms(1) by (simp add: numstat_count_def)
  then have "CHR ''-'' \<notin> set f"
    using is_digit_not_space by (auto simp: list_all_iff)
  moreover have "py_int f = Some n" using False assms(2) by (simp add: numfield_def)
  ultimately show ?thesis by (rule py_int_unsigned [rotated])
qed

lemma dropWhile_append_keep:
  "ys \<noteq> [] \<Longrightarrow> \<not> P (hd ys) \<Longrightarrow> dropWhile P (xs @ ys) = dropWhile P xs @ ys"
  by (induction xs) (auto simp: dropWhile_id)

lemma rstrip_prefix:
  "rev (dropWhile P (rev s)) = [] \<or> hd (rev (dropWhile P (rev s))) = hd s"
proof (cases "rev (dropWhile P (rev s)) = []")
  case True
  then show ?thesis by simp
next
  case False
  have "rev (dropWhile P (rev s)) @ rev (takeWhile P (rev s)) = s"
    by (metis rev_append rev_rev_ident takeWhile_dropWhile_id)
  then have "hd s = hd (rev (dropWhile P (rev s)) @ rev (takeWhile P (rev s)))"
    by simp
  also have "\<dots> = hd (rev (dropWhile P (rev s)))"
    using False by (rule hd_append2)
  finally show ?thesis by simp
qed

lemma git_numstat_parts:
  assumes "numstat_count fa" and "numstat_count fd" and "TAB \<notin> set fa" and "TAB \<notin> set fd"
  shows "2 \<le> length (split_on TAB (strip (fa @ TAB # fd @ TAB # rest))) \<and>
         split_on TAB (strip (fa @ TAB # fd @ TAB # rest)) ! 0 = fa \<and>
         split_on TAB (strip (fa @ TAB # fd @ TAB # rest)) ! 1 = fd"
proof -
  let ?l = "fa @ TAB # fd @ TAB # rest"
  let ?s = "fa @ TAB # fd"
  define r where "r = rev (dropWhile py_isspace (rev (TAB # rest)))"
  have fa: "fa \<noteq> []" "\<not> py_isspace (hd fa)"
    using numstat_count_shape [OF assms(1)] by (cases fa; simp)+
  have fd: "fd \<noteq> []" "\<not> py_isspace (last fd)"
    using numstat_count_shape [OF assms(2)] by simp_all
  have front: "dropWhile py_isspace ?l = ?l"
    using fa by (intro dropWhile_id) simp_all
  have "rev ?l = rev (TAB # rest) @ rev ?s" by simp
  moreover have "dropWhile py_isspace (rev (TAB # rest) @ rev ?s)
      = dropWhile py_isspace (rev (TAB # rest)) @ rev ?s"
    using fd by (intro dropWhile_append_keep) (simp_all add: hd_rev)
  ultimately have "rev (dropWhile py_isspace (rev ?l)) = ?s @ r"
    unfolding r_def by (simp only: rev_append rev_rev_ident)
  then have strip: "strip ?l = fa @ TAB # fd @ r"
    unfolding strip_def front by simp
  have r: "r = [] \<or> hd r = TAB"
    unfolding r_def using rstrip_prefix [of py_isspace "TAB # rest"] by simp
  have sp: "split_on TAB (fa @ TAB # fd @ r) = fa # split_on TAB (fd @ r)"
    using assms(3) by (rule split_on_sep_free)
  show ?thesis
  proof (cases "r = []")
    case True
    then show ?thesis
      using sp assms(4) by (simp add: strip split_on_no_sep)
  next
    case False
    then obtain r' where "r = TAB # r'" using r by (cases r) auto
    then have "split_on TAB (fd @ r) = fd # split_on TAB r'"
      using assms(4) by (simp add: split_on_sep_free)
    then show ?thesis
      using sp by (simp add: strip)
  qed
qed

lemma strip_subset: "set (strip l) \<subseteq> set l"
  unfolding strip_def by (auto dest!: set_dropWhileD)

lemma process_line_stats_cases:
  "stats (process_line l e) = stats e \<or>
   (\<exists>y a d. stats (process_line l e) = add_changes y a d (stats e) \<and>
      TAB \<in> set (strip l) \<and> 2 \<le> length (split_on TAB (strip l)) \<and>
      numfield (split_on TAB (strip l) ! 0) = Some a \<and>
      numfield (split_on TAB (strip l) ! 1) = Some d)"
  by (auto simp: process_line_def Let_def split: option.splits)

lemma all_nonneg_git_line:
  assumes "all_nonneg (stats e)" and "git_line l"
  shows "all_nonneg (stats (process_line l e))"
proof -
  consider "stats (process_line l e) = stats e"
    | y a d where "stats (process_line l e) = add_changes y a d (stats e)"
        "TAB \<in> set (strip l)"
        "numfield (split_on TAB (strip l) ! 0) = Some a"
        "numfield (split_on TAB (strip l) ! 1) = Some d"
    using process_line_stats_cases [of l e] by blast
  then show ?thesis
  proof cases
    case 1
    then show ?thesis using assms(1) by simp
  next
    case 2
    have "TAB \<in> set l" using 2(2) strip_subset by blast
    then have "length (split_on TAB l) \<noteq> 1" using split_on_single [of TAB l] by blast
    then have three: "3 \<le> length (split_on TAB l)"
      and ca: "numstat_count (split_on TAB l ! 0)" and cd: "numstat_count (split_on TAB l ! 1)"
      using assms(2) by (simp_all add: git_line_def Let_def)
    from split_on_three [OF three] obtain rest where
      l: "l = (split_on TAB l ! 0) @ TAB # (split_on TAB l ! 1) @ TAB # rest"
      and nt: "TAB \<notin> set (split_on TAB l ! 0)" "TAB \<notin> set (split_on TAB l ! 1)"
      by blast
    have "split_on TAB (strip l) ! 0 = split_on TAB l ! 0 \<and> split_on TAB (strip l) ! 1 = split_on TAB l ! 1"
      using git_numstat_parts [OF ca cd nt, of rest] l by simp
    then have "0 \<le> a" "0 \<le> d"
      using 2(3,4) ca cd numfield_count_nonneg by auto
    then show ?thesis
      using assms(1) 2(1) by (simp add: all_nonneg_add_changes)
  qed
qed

lemma all_nonneg_git_lines:
  "all_nonneg (stats e) \<Longrightarrow> \<forall>l \<in> set ls. git_line l \<Longrightarrow> all_nonneg (stats (run_lines ls e))"
  by (induction ls arbitrary: e) (simp_all add: run_lines_Nil run_lines_Cons all_nonneg_git_line)

text \<open>
  C2. The stream is what \<open>git log --numstat\<close> printed, so every line of it is a
  \<^const>\<open>git_line\<close>. Then every record of the returned mapping has additions
  \<open>\<ge> 0\<close> and deletions \<open>\<ge> 0\<close>.
\<close>

theorem totals_never_negative:
  assumes "\<forall>l \<in> set (split_on NL (stdout result)). git_line l"
  shows "\<forall>(y, t) \<in> set (get_git_stats result). 0 \<le> additions t \<and> 0 \<le> deletions t"
proof -
  have "all_nonneg (stats init)" by (simp add: all_nonneg_def init_def)
  then have "all_nonneg (get_git_stats result)"
    unfolding get_git_stats_def parse_log_def using assms by (rule all_nonneg_git_lines)
  then show ?thesis by (simp add: all_nonneg_def)
qed

theorem totals_never_negative_witness:
  "list_all git_line (split_on NL (stdout \<lparr>returncode = 0,
       stdout = ''2023'' @ [NL] @ [NL] @ ''5'' @ [TAB] @ ''-'' @ [TAB] @ ''a.md'' @ [NL] @
                ''12'' @ [TAB] @ ''7'' @ [TAB] @ ''sports_act.md'' @ [NL], stderr = []\<rparr>)) \<and>
   list_all (\<lambda>(y, t). 0 \<le> additions t \<and> 0 \<le> deletions t)
     (get_git_stats \<lparr>returncode = 0,
       stdout = ''2023'' @ [NL] @ [NL] @ ''5'' @ [TAB] @ ''-'' @ [TAB] @ ''a.md'' @ [NL] @
                ''12'' @ [TAB] @ ''7'' @ [TAB] @ ''sports_act.md'' @ [NL], stderr = []\<rparr>) \<and>
   get_git_stats \<lparr>returncode = 0,
       stdout = ''2023'' @ [NL] @ [NL] @ ''5'' @ [TAB] @ ''-'' @ [TAB] @ ''a.md'' @ [NL] @
                ''12'' @ [TAB] @ ''7'' @ [TAB] @ ''sports_act.md'' @ [NL], stderr = []\<rparr>
     = [(''2023'', \<lparr>additions = 17, deletions = 7\<rparr>)]"
proof -
  let ?r = "\<lparr>returncode = 0,
       stdout = ''2023'' @ [NL] @ [NL] @ ''5'' @ [TAB] @ ''-'' @ [TAB] @ ''a.md'' @ [NL] @
                ''12'' @ [TAB] @ ''7'' @ [TAB] @ ''sports_act.md'' @ [NL], stderr = []\<rparr>"
  have l: "list_all git_line (split_on NL (stdout ?r))"
    by code_simp
  then have h: "\<forall>l \<in> set (split_on NL (stdout ?r)). git_line l"
    by (simp only: list_all_iff)
  have v: "get_git_stats ?r = [(''2023'', \<lparr>additions = 17, deletions = 7\<rparr>)]"
    by code_simp
  have "list_all (\<lambda>(y, t). 0 \<le> additions t \<and> 0 \<le> deletions t) (get_git_stats ?r)"
    using totals_never_negative [OF h] by (simp only: list_all_iff)
  then show ?thesis using l v by blast
qed

text \<open>
  The format of the counts matters: \<open>int\<close> reads a sign, and a count such as
  \<open>-5\<close>, which git never prints, would be added as it is.
\<close>

lemma signed_count_is_not_git_output:
  "\<not> git_line (''-5'' @ [TAB] @ ''0'' @ [TAB] @ ''a.md'') \<and>
   parse_log (''2023'' @ [NL] @ ''-5'' @ [TAB] @ ''0'' @ [TAB] @ ''a.md'' @ [NL])
     = [(''2023'', \<lparr>additions = - 5, deletions = 0\<rparr>)]"
  by code_simp

lemma process_line_new_key:
  assumes "map_of (stats (process_line l e)) y \<noteq> None"
  shows "map_of (stats e) y \<noteq> None \<or> (current_year e = Some y \<and> passes_filter l)"
proof (cases "stats (process_line l e) = stats e")
  case True
  then show ?thesis using assms by simp
next
  case False
  then obtain y' a d where y': "current_year e = Some y'" and pf: "passes_filter l"
    and st: "stats (process_line l e) = add_changes y' a d (stats e)"
    by (auto simp: process_line_def Let_def passes_filter_def split: option.splits if_splits)
  show ?thesis
  proof (cases "y = y'")
    case True
    then show ?thesis using y' pf by simp
  next
    case False
    then show ?thesis using assms st by (simp add: map_of_add_changes_other)
  qed
qed

lemma key_origin:
  "map_of (stats (run_lines ls init)) y \<noteq> None \<Longrightarrow>
   \<exists>i<length ls. current_year (run_lines (take i ls) init) = Some y \<and> passes_filter (ls ! i)"
proof (induction ls rule: rev_induct)
  case Nil
  then show ?case by (simp add: run_lines_Nil init_def)
next
  case (snoc x xs)
  have "map_of (stats (process_line x (run_lines xs init))) y \<noteq> None"
    using snoc.prems by (simp add: run_lines_append run_lines_Cons run_lines_Nil)
  then consider "map_of (stats (run_lines xs init)) y \<noteq> None"
    | "current_year (run_lines xs init) = Some y \<and> passes_filter x"
    using process_line_new_key by blast
  then show ?case
  proof cases
    case 1
    then obtain i where "i < length xs"
      "current_year (run_lines (take i xs) init) = Some y" "passes_filter (xs ! i)"
      using snoc.IH by blast
    then show ?thesis
      by (intro exI [of _ i]) (simp add: nth_append)
  next
    case 2
    then show ?thesis
      by (intro exI [of _ "length xs"]) simp
  qed
qed

text \<open>
  C3, as amended. The cursor is set once per commit, so a year has as many cursor
  lines as it has commits, and its entry comes from any of them. When no numstat line
  that passes the file filter is processed while the cursor is the year \<open>y\<close> (no
  cursor line of \<open>y\<close> is followed by such a line before the next cursor line or the
  end of the input), the mapping has no entry for \<open>y\<close>: the key is absent.
\<close>

theorem year_absent_without_matching_lines:
  assumes "\<forall>i < length (split_on NL out).
             current_year (run_lines (take i (split_on NL out)) init) = Some y \<longrightarrow>
             \<not> passes_filter (split_on NL out ! i)"
  shows "map_of (parse_log out) y = None"
  using assms key_origin [of "split_on NL out" y] unfolding parse_log_def by blast

theorem year_absent_without_matching_lines_witness:
  "split_on NL (''2023'' @ [NL] @ ''1'' @ [TAB] @ ''1'' @ [TAB] @ ''x.txt'' @ [NL] @ ''2022'' @ [NL] @ ''5'' @ [TAB] @ ''5'' @ [TAB] @ ''a.md'')
     = [''2023'', ''1'' @ [TAB] @ ''1'' @ [TAB] @ ''x.txt'', ''2022'', ''5'' @ [TAB] @ ''5'' @ [TAB] @ ''a.md''] \<and>
   \<not> passes_filter (''1'' @ [TAB] @ ''1'' @ [TAB] @ ''x.txt'') \<and>
   \<not> passes_filter ''2022'' \<and>
   current_year (run_lines [''2023'', ''1'' @ [TAB] @ ''1'' @ [TAB] @ ''x.txt'', ''2022''] init) = Some ''2022'' \<and>
   map_of (parse_log (''2023'' @ [NL] @ ''1'' @ [TAB] @ ''1'' @ [TAB] @ ''x.txt'' @ [NL] @ ''2022'' @ [NL] @ ''5'' @ [TAB] @ ''5'' @ [TAB] @ ''a.md'')) ''2023''
     = None"
proof -
  let ?out = "''2023'' @ [NL] @ ''1'' @ [TAB] @ ''1'' @ [TAB] @ ''x.txt'' @ [NL] @ ''2022'' @ [NL] @ ''5'' @ [TAB] @ ''5'' @ [TAB] @ ''a.md''"
  let ?l1 = "''1'' @ [TAB] @ ''1'' @ [TAB] @ ''x.txt''"
  let ?l3 = "''5'' @ [TAB] @ ''5'' @ [TAB] @ ''a.md''"
  have sp: "split_on NL ?out = [''2023'', ?l1, ''2022'', ?l3]"
    by code_simp
  have c0: "current_year (run_lines [] init) = None"
    by code_simp
  have c1: "\<not> passes_filter ?l1"
    by code_simp
  have c2: "\<not> passes_filter ''2022''"
    by code_simp
  have c3: "current_year (run_lines [''2023'', ?l1, ''2022''] init) = Some ''2022''"
    by code_simp
  have h: "\<forall>i < length (split_on NL ?out).
             current_year (run_lines (take i (split_on NL ?out)) init) = Some ''2023'' \<longrightarrow>
             \<not> passes_filter (split_on NL ?out ! i)"
    unfolding sp
  proof (intro allI impI)
    fix i
    assume "i < length [''2023'', ?l1, ''2022'', ?l3]"
      and cur: "current_year (run_lines (take i [''2023'', ?l1, ''2022'', ?l3]) init) = Some ''2023''"
    then consider "i = 0" | "i = 1" | "i = 2" | "i = 3"
      by (auto simp: less_Suc_eq)
    then show "\<not> passes_filter ([''2023'', ?l1, ''2022'', ?l3] ! i)"
    proof cases
      case 1 then show ?thesis using cur c0 by simp
    next
      case 2 then show ?thesis using c1 by simp
    next
      case 3 then show ?thesis using c2 by simp
    next
      case 4 then show ?thesis using cur c3 by (simp add: numeral_3_eq_3)
    qed
  qed
  show ?thesis
    using year_absent_without_matching_lines [OF h] sp c1 c2 c3 by simp
qed

text \<open>
  C3, as stated, fails: in the stream below the second cursor line \<open>2023\<close> is
  followed, up to the end of the input, by no numstat line that passes the filter,
  and the mapping holds an entry for 2023, made after the first cursor line.
\<close>

theorem repeated_year_counterexample:
  "split_on NL (''2023'' @ [NL] @ ''5'' @ [TAB] @ ''3'' @ [TAB] @ ''a.md'' @ [NL] @ ''2023'' @ [NL] @ ''1'' @ [TAB] @ ''1'' @ [TAB] @ ''x.txt'')
     = [''2023'', ''5'' @ [TAB] @ ''3'' @ [TAB] @ ''a.md'', ''2023'', ''1'' @ [TAB] @ ''1'' @ [TAB] @ ''x.txt''] \<and>
   is_year (strip ''2023'') \<and>
   \<not> passes_filter (''1'' @ [TAB] @ ''1'' @ [TAB] @ ''x.txt'') \<and>
   map_of (parse_log (''2023'' @ [NL] @ ''5'' @ [TAB] @ ''3'' @ [TAB] @ ''a.md'' @ [NL] @ ''2023'' @ [NL] @ ''1'' @ [TAB] @ ''1'' @ [TAB] @ ''x.txt'')) ''2023''
     = Some \<lparr>additions = 5, deletions = 3\<rparr>"
  by code_simp

section \<open>Claims about the renderer\<close>

lemma Bar_in_draw_year:
  "Bar i h c \<in> set (draw_year (j, y, add, dele)) \<longleftrightarrow>
     i = j \<and> ((c = ''#90EE90'' \<and> h = add \<and> 0 < add) \<or> (c = ''#FF7F7F'' \<and> h = dele \<and> dele < 0))"
  by (auto simp: draw_year_def)

lemma in_enumerate_zip3:
  assumes "length bs = length as" and "length cs = length as"
  shows "p \<in> set (enumerate 0 (zip as (zip bs cs))) \<longleftrightarrow>
           (\<exists>j < length as. p = (j, as ! j, bs ! j, cs ! j))"
  using assms by (cases p) (auto simp: in_set_enumerate_eq)

lemma Bar_in_bars:
  assumes "length bs = length as" and "length cs = length as"
  shows "Bar i h c \<in> set (concat (map draw_year (enumerate 0 (zip as (zip bs cs))))) \<longleftrightarrow>
           i < length as \<and>
           ((c = ''#90EE90'' \<and> h = bs ! i \<and> 0 < bs ! i) \<or> (c = ''#FF7F7F'' \<and> h = cs ! i \<and> cs ! i < 0))"
    (is "?L \<longleftrightarrow> ?R")
proof -
  have "?L \<longleftrightarrow> (\<exists>p. p \<in> set (enumerate 0 (zip as (zip bs cs))) \<and> Bar i h c \<in> set (draw_year p))"
    by auto
  also have "\<dots> \<longleftrightarrow> (\<exists>p. (\<exists>j < length as. p = (j, as ! j, bs ! j, cs ! j)) \<and> Bar i h c \<in> set (draw_year p))"
    unfolding in_enumerate_zip3 [OF assms] ..
  also have "\<dots> \<longleftrightarrow> (\<exists>j < length as. Bar i h c \<in> set (draw_year (j, as ! j, bs ! j, cs ! j)))"
    by blast
  also have "\<dots> \<longleftrightarrow> (\<exists>j < length as. i = j \<and>
      ((c = ''#90EE90'' \<and> h = bs ! j \<and> 0 < bs ! j) \<or> (c = ''#FF7F7F'' \<and> h = cs ! j \<and> cs ! j < 0)))"
    unfolding Bar_in_draw_year ..
  also have "\<dots> \<longleftrightarrow> ?R"
    by blast
  finally show ?thesis .
qed

lemma XTick_notin_draw_year: "XTickLabels ys \<notin> set (draw_year p)"
  by (cases p) (simp add: draw_year_def)

lemma Bar_in_create_chart:
  "Bar i h c \<in> set (create_chart st) \<longleftrightarrow>
     i < length st \<and>
     ((c = ''#90EE90'' \<and> h = additions (the (map_of st (sort (map fst st) ! i)))
        \<and> 0 < additions (the (map_of st (sort (map fst st) ! i)))) \<or>
      (c = ''#FF7F7F'' \<and> h = - deletions (the (map_of st (sort (map fst st) ! i)))
        \<and> 0 < deletions (the (map_of st (sort (map fst st) ! i)))))"
proof -
  let ?years = "sort (map fst st)"
  let ?adds = "map (\<lambda>y. additions (the (map_of st y))) ?years"
  let ?dels = "map (\<lambda>y. - deletions (the (map_of st y))) ?years"
  have len: "length ?adds = length ?years" "length ?dels = length ?years"
    by simp_all
  have "Bar i h c \<in> set (create_chart st) \<longleftrightarrow>
          Bar i h c \<in> set (concat (map draw_year (enumerate 0 (zip ?years (zip ?adds ?dels)))))"
    by (simp add: create_chart_def Let_def)
  also have "\<dots> \<longleftrightarrow> i < length ?years \<and>
       ((c = ''#90EE90'' \<and> h = ?adds ! i \<and> 0 < ?adds ! i) \<or> (c = ''#FF7F7F'' \<and> h = ?dels ! i \<and> ?dels ! i < 0))"
    by (rule Bar_in_bars [OF len])
  finally show ?thesis
    by (cases "i < length st") simp_all
qed

lemma last_create_chart: "last (create_chart st) = XTickLabels (sort (map fst st))"
  by (simp add: create_chart_def Let_def)

lemma sorted_key_has_entry:
  assumes "i < length st"
  shows "\<exists>t. map_of st (sort (map fst st) ! i) = Some t"
proof -
  have "sort (map fst st) ! i \<in> set (sort (map fst st))"
    using assms by (intro nth_mem) simp
  then have "sort (map fst st) ! i \<in> fst ` set st" by simp
  then have "map_of st (sort (map fst st) ! i) \<noteq> None"
    by (simp add: map_of_eq_None_iff)
  then show ?thesis by blast
qed

text \<open>
  C6. The renderer sorts the years, and the sorted years are the tick labels. At
  the position \<open>i\<close> of the sorted years, with \<open>t\<close> the totals of the year there,
  an upward bar (the green fill) of height \<open>h\<close> is drawn exactly when \<open>h\<close> is the
  additions of \<open>t\<close> and they are \<open>> 0\<close>, and a downward bar (the red fill) exactly
  when \<open>h\<close> is minus the deletions of \<open>t\<close> and they are \<open>> 0\<close>. No other bar is
  drawn.
\<close>

theorem bars_follow_sorted_years:
  assumes "distinct (map fst st)"
  shows "sorted (sort (map fst st)) \<and> distinct (sort (map fst st)) \<and>
         set (sort (map fst st)) = fst ` set st \<and>
         last (create_chart st) = XTickLabels (sort (map fst st)) \<and>
         (\<forall>i < length (sort (map fst st)).
            \<exists>t. map_of st (sort (map fst st) ! i) = Some t \<and>
              (\<forall>h. Bar i h ''#90EE90'' \<in> set (create_chart st) \<longleftrightarrow> h = additions t \<and> 0 < additions t) \<and>
              (\<forall>h. Bar i h ''#FF7F7F'' \<in> set (create_chart st) \<longleftrightarrow> h = - deletions t \<and> 0 < deletions t)) \<and>
         (\<forall>i h c. Bar i h c \<in> set (create_chart st) \<longrightarrow>
            i < length (sort (map fst st)) \<and> (c = ''#90EE90'' \<or> c = ''#FF7F7F''))"
proof -
  have a: "sorted (sort (map fst st)) \<and> distinct (sort (map fst st)) \<and>
         set (sort (map fst st)) = fst ` set st"
    using assms by simp
  have c: "\<exists>t. map_of st (sort (map fst st) ! i) = Some t \<and>
              (\<forall>h. Bar i h ''#90EE90'' \<in> set (create_chart st) \<longleftrightarrow> h = additions t \<and> 0 < additions t) \<and>
              (\<forall>h. Bar i h ''#FF7F7F'' \<in> set (create_chart st) \<longleftrightarrow> h = - deletions t \<and> 0 < deletions t)"
    if "i < length (sort (map fst st))" for i
  proof -
    have i: "i < length st" using that by simp
    then obtain t where t: "map_of st (sort (map fst st) ! i) = Some t"
      using sorted_key_has_entry by blast
    have ne: "''#90EE90'' \<noteq> ''#FF7F7F''" by simp
    have g: "Bar i h ''#90EE90'' \<in> set (create_chart st) \<longleftrightarrow> h = additions t \<and> 0 < additions t" for h
      unfolding Bar_in_create_chart using i t ne by auto
    have r: "Bar i h ''#FF7F7F'' \<in> set (create_chart st) \<longleftrightarrow> h = - deletions t \<and> 0 < deletions t" for h
      unfolding Bar_in_create_chart using i t ne by auto
    show ?thesis using t g r by blast
  qed
  have d: "\<forall>i h c. Bar i h c \<in> set (create_chart st) \<longrightarrow>
            i < length (sort (map fst st)) \<and> (c = ''#90EE90'' \<or> c = ''#FF7F7F'')"
    unfolding Bar_in_create_chart by auto
  show ?thesis using a last_create_chart c d by blast
qed

theorem bars_follow_sorted_years_witness:
  "distinct (map fst [(''2023'', \<lparr>additions = 5, deletions = 0\<rparr>), (''2022'', \<lparr>additions = 100, deletions = 40\<rparr>)]) \<and>
   sort (map fst [(''2023'', \<lparr>additions = 5, deletions = 0\<rparr>), (''2022'', \<lparr>additions = 100, deletions = 40\<rparr>)])
     = [''2022'', ''2023''] \<and>
   last (create_chart [(''2023'', \<lparr>additions = 5, deletions = 0\<rparr>), (''2022'', \<lparr>additions = 100, deletions = 40\<rparr>)])
     = XTickLabels [''2022'', ''2023''] \<and>
   create_chart [(''2023'', \<lparr>additions = 5, deletions = 0\<rparr>), (''2022'', \<lparr>additions = 100, deletions = 40\<rparr>)]
     = [Bar 0 100 ''#90EE90'', Text 0 105 ''100'', Bar 0 (- 40) ''#FF7F7F'', Text 0 (- 45) ''40'',
        Bar 1 5 ''#90EE90'', Text 1 10 ''5'', XTickLabels [''2022'', ''2023'']]"
proof -
  let ?st = "[(''2023'', \<lparr>additions = 5, deletions = 0\<rparr>), (''2022'', \<lparr>additions = 100, deletions = 40\<rparr>)]"
  have h: "distinct (map fst ?st)" by simp
  have s: "sort (map fst ?st) = [''2022'', ''2023'']" by code_simp
  have e: "create_chart ?st
     = [Bar 0 100 ''#90EE90'', Text 0 105 ''100'', Bar 0 (- 40) ''#FF7F7F'', Text 0 (- 45) ''40'',
        Bar 1 5 ''#90EE90'', Text 1 10 ''5'', XTickLabels [''2022'', ''2023'']]"
    by code_simp
  from bars_follow_sorted_years [OF h]
  have "last (create_chart ?st) = XTickLabels (sort (map fst ?st))" by blast
  then have l: "last (create_chart ?st) = XTickLabels [''2022'', ''2023'']"
    unfolding s .
  show ?thesis using h s l e by blast
qed

text \<open>An empty mapping gives no bar and no tick label.\<close>

lemma empty_mapping_no_bars: "create_chart [] = [XTickLabels []]"
  by (simp add: create_chart_def)

end
